theory Spec2Isabelle
  imports Main
begin

section \<open>Layer-associated models of ITK-SNAP\<close>

text \<open>
  The development embeds \<^verbatim>\<open>AbstractLayerAssociatedModel\<close>
  (\<^verbatim>\<open>src/GUI/Model/AbstractLayerAssociatedModel.h\<close>): a model that is associated
  with one image layer at a time, keeps layer-specific properties in a
  \<^verbatim>\<open>LayerAssociation\<close>, and registers with and unregisters from the layers.
  The header \<^verbatim>\<open>LayerAssociation.h\<close> is not among the sources; the store is
  modelled from the specification (section 4.1, the Keyed Association Store).

  A layer pointer \<^verbatim>\<open>TWrapper *\<close> is a value of type \<open>'k option\<close>, \<open>None\<close> being
  \<^verbatim>\<open>NULL\<close>. The layers of the image data are never \<^verbatim>\<open>NULL\<close>, so the keys of the
  store have type \<open>'k\<close>. Calls that leave the object (the factory, the pure virtual
  registration methods, \<^verbatim>\<open>InvokeEvent\<close>) are recorded, in the order in which they
  happen, in a list of events.
\<close>

subsection \<open>Errors and observable calls\<close>

datatype error = NotFound | ResourceExhausted | NoActiveSelection

datatype 'k event =
    Create 'k
  | Dispose 'k
  | Register 'k
  | UnRegister 'k
  | ActiveLayerChanged

subsection \<open>The keyed association store\<close>

text \<open>
  Modelled from the spec: the association entry \<open>(key, value, registration_token)\<close> of
  section 3; \<^verbatim>\<open>LayerAssociation.h\<close> is missing.
\<close>

record ('k, 'v) entry =
  key :: 'k
  val :: 'v
  registration_token :: "nat option"

text \<open>
  Modelled from the spec: the store, whose iteration order is the order of its entries;
  \<^verbatim>\<open>LayerAssociation.h\<close> is missing.
\<close>

type_synonym ('k, 'v) store = "('k, 'v) entry list"

text \<open>Modelled from the spec: a fresh entry is \<open>(key, value, None)\<close>.\<close>

definition new_entry :: "'k \<Rightarrow> 'v \<Rightarrow> ('k, 'v) entry" where
  "new_entry k v = \<lparr>key = k, val = v, registration_token = None\<rparr>"

text \<open>Modelled from the spec: \<open>store.keys()\<close>, in iteration order.\<close>

definition keys :: "('k, 'v) store \<Rightarrow> 'k list" where
  "keys st = map key st"

text \<open>
  Modelled from the spec: \<open>contains(key)\<close>. It stands for the test
  \<^verbatim>\<open>m_LayerProperties.find(layer) != m_LayerProperties.end()\<close> of the source.
\<close>

definition contains :: "('k, 'v) store \<Rightarrow> 'k \<Rightarrow> bool" where
  "contains st k = (k \<in> set (keys st))"

text \<open>
  Modelled from the spec: \<open>get(key)\<close> fails with \<open>NotFound\<close> if the key is not in the
  store. It stands for \<^verbatim>\<open>m_LayerProperties[layer]\<close> of the source.
\<close>

definition get :: "('k, 'v) store \<Rightarrow> 'k \<Rightarrow> error + 'v" where
  "get st k = (case find (\<lambda>e. key e = k) st of None \<Rightarrow> Inl NotFound | Some e \<Rightarrow> Inr (val e))"

text \<open>Modelled from the spec: \<open>iterate()\<close>, the finite sequence of (key, value) pairs.\<close>

definition iterate :: "('k, 'v) store \<Rightarrow> ('k \<times> 'v) list" where
  "iterate st = map (\<lambda>e. (key e, val e)) st"

text \<open>
  Modelled from the spec: the first half of \<open>resync\<close>. For each key of the authoritative
  sequence that is not currently present, \<open>create(key)\<close> is called and \<open>(key, value, None)\<close>
  is inserted. The factory is a function \<open>'k \<Rightarrow> 'v option\<close>, \<open>None\<close> being a failed
  construction. A failure ends the call at once (section 7: the store surfaces errors
  immediately from the operation that encountered them, and does not retry or skip),
  and the insertions made before it stay (section 4.2).
\<close>

fun create_missing ::
  "('k \<Rightarrow> 'v option) \<Rightarrow> 'k list \<Rightarrow> ('k, 'v) store \<Rightarrow> bool \<times> ('k, 'v) store \<times> 'k event list"
where
  "create_missing create [] st = (True, st, [])"
| "create_missing create (k # ks) st =
     (if contains st k then create_missing create ks st
      else (case create k of
              None \<Rightarrow> (False, st, [Create k])
            | Some v \<Rightarrow>
                (case create_missing create ks (st @ [new_entry k v]) of
                   (ok, st', evs) \<Rightarrow> (ok, st', Create k # evs))))"

text \<open>
  Modelled from the spec: the entries that are present but absent from the authoritative
  sequence; each is removed after \<open>dispose(key, value)\<close>.
\<close>

definition stale :: "'k list \<Rightarrow> ('k, 'v) store \<Rightarrow> ('k, 'v) store" where
  "stale S st = filter (\<lambda>e. key e \<notin> set S) st"

text \<open>
  Modelled from the spec: afterwards the store holds the keys of the input, in the
  input's order. An entry is placed where its key first occurs in the sequence.
\<close>

fun arrange :: "'k list \<Rightarrow> ('k, 'v) store \<Rightarrow> ('k, 'v) store" where
  "arrange [] st = []"
| "arrange (k # ks) st =
     (case find (\<lambda>e. key e = k) st of
        None \<Rightarrow> arrange ks st
      | Some e \<Rightarrow> e # arrange ks (filter (\<lambda>e'. key e' \<noteq> k) st))"

text \<open>
  Modelled from the spec: \<open>resync(authoritative_keys)\<close> of section 4.1, which stands for
  \<^verbatim>\<open>SetImageData\<close> followed by \<^verbatim>\<open>Update\<close> of the missing \<^verbatim>\<open>LayerAssociation.h\<close>.
  The result is the outcome, the store after the call and the factory calls made.
\<close>

definition resync ::
  "('k \<Rightarrow> 'v option) \<Rightarrow> 'k list \<Rightarrow> ('k, 'v) store \<Rightarrow> (error + unit) \<times> ('k, 'v) store \<times> 'k event list"
where
  "resync create S st =
     (case create_missing create S st of
        (False, st1, evs) \<Rightarrow> (Inl ResourceExhausted, st1, evs)
      | (True, st1, evs) \<Rightarrow>
          (Inr (), arrange S st1, evs @ map (\<lambda>e. Dispose (key e)) (stale S st1)))"

text \<open>
  The key at which a \<open>resync\<close> call fails, if it fails: the first requested key that
  is absent and whose construction fails.
\<close>

fun failing_key :: "('k \<Rightarrow> 'v option) \<Rightarrow> 'k list \<Rightarrow> ('k, 'v) store \<Rightarrow> 'k option" where
  "failing_key create [] st = None"
| "failing_key create (k # ks) st =
     (if contains st k then failing_key create ks st
      else (case create k of
              None \<Rightarrow> Some k
            | Some v \<Rightarrow> failing_key create ks (st @ [new_entry k v])))"

text \<open>
  A sequence of \<open>resync\<close> calls on one store. Every call comes with the factory as it
  behaves during that call, so that a construction can fail in one call and succeed
  when the caller tries again (sections 4.2 and 7). The result lists, for each call,
  the store after it and the factory calls it made.
\<close>

fun resync_run ::
  "(('k \<Rightarrow> 'v option) \<times> 'k list) list \<Rightarrow> ('k, 'v) store \<Rightarrow> (('k, 'v) store \<times> 'k event list) list"
where
  "resync_run [] st = []"
| "resync_run ((create, S) # run) st =
     (case resync create S st of (r, st', evs) \<Rightarrow> (st', evs) # resync_run run st')"

definition run_events ::
  "(('k \<Rightarrow> 'v option) \<times> 'k list) list \<Rightarrow> ('k, 'v) store \<Rightarrow> 'k event list" where
  "run_events run st = concat (map snd (resync_run run st))"

definition presence ::
  "(('k \<Rightarrow> 'v option) \<times> 'k list) list \<Rightarrow> ('k, 'v) store \<Rightarrow> 'k \<Rightarrow> bool list" where
  "presence run st k = map (\<lambda>p. contains (fst p) k) (resync_run run st)"

text \<open>The keys whose construction failed during a sequence of \<open>resync\<close> calls.\<close>

fun failed_creates ::
  "(('k \<Rightarrow> 'v option) \<times> 'k list) list \<Rightarrow> ('k, 'v) store \<Rightarrow> 'k list" where
  "failed_creates [] st = []"
| "failed_creates ((create, S) # run) st =
     (case failing_key create S st of None \<Rightarrow> [] | Some k \<Rightarrow> [k])
     @ failed_creates run (fst (snd (resync create S st)))"

text \<open>
  The order in which a sequence names its keys: every key once, where it first occurs.
\<close>

fun first_occurrences :: "'k list \<Rightarrow> 'k list" where
  "first_occurrences [] = []"
| "first_occurrences (k # ks) = k # first_occurrences (removeAll k ks)"

text \<open>
  The factory calls for one key that a history of presence in the store calls for: a
  \<open>create\<close> when the key enters, a \<open>dispose\<close> when it leaves.
\<close>

fun transitions :: "'k \<Rightarrow> bool \<Rightarrow> bool list \<Rightarrow> 'k event list" where
  "transitions k b [] = []"
| "transitions k b (b' # bs) =
     (if \<not> b \<and> b' then [Create k] else if b \<and> \<not> b' then [Dispose k] else [])
     @ transitions k b' bs"

text \<open>The calls of a trace that concern one key.\<close>

definition calls_for :: "'k \<Rightarrow> 'k event list \<Rightarrow> 'k event list" where
  "calls_for k evs = filter (\<lambda>e. e = Create k \<or> e = Dispose k) evs"

definition is_factory_call :: "'k event \<Rightarrow> bool" where
  "is_factory_call e = (case e of Create k \<Rightarrow> True | Dispose k \<Rightarrow> True | _ \<Rightarrow> False)"

subsection \<open>The layer-associated model\<close>

text \<open>
  The fields of \<^verbatim>\<open>AbstractLayerAssociatedModel\<close> that the methods below use, and the
  calls made so far.
\<close>

record ('k, 'v) model =
  m_Layer :: "'k option"
  m_LayerProperties :: "('k, 'v) store"
  trace :: "'k event list"

text \<open>The constructor: no layer, no properties.\<close>

definition initial :: "('k, 'v) model" where
  "initial = \<lparr>m_Layer = None, m_LayerProperties = [], trace = []\<rparr>"

text \<open>
  \<^verbatim>\<open>PropertiesFactory::New\<close>, that is \<^verbatim>\<open>CreateProperty\<close>: \<^verbatim>\<open>new TProperties()\<close>.
  The default-constructed \<^verbatim>\<open>TProperties\<close> is the parameter \<open>p0\<close>.
\<close>

definition CreateProperty :: "'v \<Rightarrow> 'k \<Rightarrow> 'v option" where
  "CreateProperty p0 w = Some p0"

text \<open>
  \<^verbatim>\<open>m_LayerProperties.Update()\<close>. The parameter \<open>S\<close> is the sequence of layers that the
  image data of the driver enumerates when the call is made.
\<close>

definition Update ::
  "'v \<Rightarrow> 'k list \<Rightarrow> ('k, 'v) model \<Rightarrow> (error + unit) \<times> ('k, 'v) model" where
  "Update p0 S m =
     (case resync (CreateProperty p0) S (m_LayerProperties m) of
        (r, st, evs) \<Rightarrow> (r, m\<lparr>m_LayerProperties := st, trace := trace m @ evs\<rparr>))"

text \<open>\<^verbatim>\<open>m_LayerProperties.find(layer) != m_LayerProperties.end()\<close> for a pointer.\<close>

definition found :: "('k, 'v) store \<Rightarrow> 'k option \<Rightarrow> bool" where
  "found st layer = (case layer of None \<Rightarrow> False | Some k \<Rightarrow> contains st k)"

definition invoke :: "'k event \<Rightarrow> ('k, 'v) model \<Rightarrow> ('k, 'v) model" where
  "invoke e m = m\<lparr>trace := trace m @ [e]\<rparr>"

text \<open>\<^verbatim>\<open>SetLayer(layer)\<close>, lines 70 to 91.\<close>

definition SetLayer ::
  "'v \<Rightarrow> 'k list \<Rightarrow> 'k option \<Rightarrow> ('k, 'v) model \<Rightarrow> (error + unit) \<times> ('k, 'v) model" where
  "SetLayer p0 S layer m =
     (case Update p0 S m of
        (Inl e, m1) \<Rightarrow> (Inl e, m1)
      | (Inr u, m1) \<Rightarrow>
          (let m2 = (case m_Layer m1 of
                       None \<Rightarrow> m1
                     | Some old \<Rightarrow>
                         if contains (m_LayerProperties m1) old
                         then invoke (UnRegister old) m1 else m1);
               m3 = m2\<lparr>m_Layer := layer\<rparr>;
               m4 = (case layer of None \<Rightarrow> m3 | Some l \<Rightarrow> invoke (Register l) m3)
           in (Inr (), invoke ActiveLayerChanged m4)))"

text \<open>
  \<^verbatim>\<open>SetParentModel(parent)\<close>, lines 48 to 62: the store is bound to the image data
  of the driver and the active layer is set to \<^verbatim>\<open>NULL\<close>.
\<close>

definition SetParentModel ::
  "'v \<Rightarrow> 'k list \<Rightarrow> ('k, 'v) model \<Rightarrow> (error + unit) \<times> ('k, 'v) model" where
  "SetParentModel p0 S m = SetLayer p0 S None m"

text \<open>
  How a call of \<^verbatim>\<open>GetProperties\<close> can end: it returns a value; it returns an error to
  the caller; the program stops at a failed \<^verbatim>\<open>assert\<close>; or it goes on past a missing
  check, where the source defines no result.
\<close>

datatype 'v outcome = Returns 'v | Fails error | Aborts | Unchecked

text \<open>
  \<^verbatim>\<open>GetProperties()\<close>, lines 98 to 103. The first parameter says whether assertions
  are compiled in (\<^verbatim>\<open>NDEBUG\<close> is not defined). With assertions, \<^verbatim>\<open>assert(m_Layer)\<close>
  stops the program when there is no active layer; without them the line is gone.
  The pointer \<^verbatim>\<open>m_LayerProperties[m_Layer]\<close> is then dereferenced as it comes: where
  the store has no entry (it never has one for \<^verbatim>\<open>NULL\<close>), the source has no check and
  no error to return.
\<close>

definition GetProperties :: "bool \<Rightarrow> ('k, 'v) model \<Rightarrow> 'v outcome" where
  "GetProperties assertions m =
     (if assertions \<and> m_Layer m = None then Aborts
      else (case m_Layer m of
              None \<Rightarrow> Unchecked
            | Some k \<Rightarrow>
                (case get (m_LayerProperties m) k of
                   Inl e \<Rightarrow> Unchecked
                 | Inr v \<Rightarrow> Returns v)))"

text \<open>
  \<^verbatim>\<open>OnUpdate()\<close>, lines 134 to 148. The first parameter is
  \<^verbatim>\<open>m_EventBucket->HasEvent(LayerChangeEvent())\<close>.
\<close>

definition OnUpdate ::
  "'v \<Rightarrow> bool \<Rightarrow> 'k list \<Rightarrow> ('k, 'v) model \<Rightarrow> (error + unit) \<times> ('k, 'v) model" where
  "OnUpdate p0 has_LayerChangeEvent S m =
     (if has_LayerChangeEvent then
        (case Update p0 S m of
           (Inl e, m1) \<Rightarrow> (Inl e, m1)
         | (Inr u, m1) \<Rightarrow>
             if \<not> found (m_LayerProperties m1) (m_Layer m1)
             then SetLayer p0 S None m1
             else (Inr (), m1))
      else (Inr (), m))"

text \<open>
  The invariant of the active selection: a layer that is not \<^verbatim>\<open>NULL\<close> has an entry
  in the store.
\<close>

definition selection_valid :: "('k, 'v) model \<Rightarrow> bool" where
  "selection_valid m = (case m_Layer m of None \<Rightarrow> True | Some k \<Rightarrow> contains (m_LayerProperties m) k)"

text \<open>The calls that a method added to the trace.\<close>

definition calls_added :: "('k, 'v) model \<Rightarrow> ('k, 'v) model \<Rightarrow> 'k event list" where
  "calls_added m m' = drop (length (trace m)) (trace m')"

subsection \<open>Concrete layers, factories and models\<close>

datatype layer = LayerA | LayerB | LayerC

definition plain :: "layer \<Rightarrow> nat option" where
  "plain k = Some 0"

definition exhausted :: "layer \<Rightarrow> nat option" where
  "exhausted k = None"

definition fails_on_B :: "layer \<Rightarrow> nat option" where
  "fails_on_B k = (if k = LayerB then None else Some 0)"

definition selected_A :: "(layer, nat) model" where
  "selected_A = snd (SetLayer 0 [LayerA, LayerB] (Some LayerA) initial)"

definition only_A :: "(layer, nat) model" where
  "only_A = snd (SetLayer 0 [LayerA] (Some LayerA) initial)"

definition stray_A :: "(layer, nat) model" where
  "stray_A = snd (SetLayer 0 [] (Some LayerA) initial)"

definition steady_run :: "((layer \<Rightarrow> nat option) \<times> layer list) list" where
  "steady_run = [(fails_on_B, [LayerA, LayerB]), (plain, [LayerB, LayerA]), (plain, [LayerC])]"

definition retry_run :: "((layer \<Rightarrow> nat option) \<times> layer list) list" where
  "retry_run = [(exhausted, [LayerA]), (plain, [LayerA]), (plain, [])]"

section \<open>Properties of the store\<close>

subsection \<open>Keys and lookup\<close>

lemma keys_simps: "keys [] = []" "keys (e # st) = key e # keys st" "keys (st @ st') = keys st @ keys st'"
  by (simp_all add: keys_def)

lemma keys_filter_subset: "set (keys (filter P st)) \<subseteq> set (keys st)"
  by (auto simp: keys_def)

lemma find_key_None: "(find (\<lambda>e. key e = k) st = None) = (k \<notin> set (keys st))"
  by (auto simp: find_None_iff keys_def)

lemma find_key_Some: "find (\<lambda>e. key e = k) st = Some e \<Longrightarrow> key e = k \<and> e \<in> set st"
  by (auto simp: find_Some_iff)

lemma create_missing_extends:
  "create_missing create S st = (ok, st1, evs) \<Longrightarrow> \<exists>new. st1 = st @ new \<and> set (keys new) \<subseteq> set S"
proof (induction create S st arbitrary: ok st1 evs rule: create_missing.induct)
  case (1 create st)
  then show ?case by (simp add: keys_def)
next
  case (2 create k ks st)
  show ?case
  proof (cases "contains st k")
    case True
    with 2 show ?thesis by fastforce
  next
    case False
    show ?thesis
    proof (cases "create k")
      case None
      with False 2 show ?thesis by (simp add: keys_def)
    next
      case (Some v)
      obtain ok' st' evs' where r: "create_missing create ks (st @ [new_entry k v]) = (ok', st', evs')"
        by (cases "create_missing create ks (st @ [new_entry k v])") auto
      from "2.IH"(2)[OF False Some r] obtain new where
        "st' = (st @ [new_entry k v]) @ new" "set (keys new) \<subseteq> set ks" by blast
      moreover from "2.prems" False Some r have "st1 = st'" by simp
      ultimately show ?thesis
        by (intro exI[of _ "new_entry k v # new"]) (auto simp: keys_def new_entry_def)
    qed
  qed
qed

lemma create_missing_complete:
  "create_missing create S st = (True, st1, evs) \<Longrightarrow> set S \<subseteq> set (keys st1)"
proof (induction create S st arbitrary: st1 evs rule: create_missing.induct)
  case (1 create st)
  then show ?case by simp
next
  case (2 create k ks st)
  show ?case
  proof (cases "contains st k")
    case True
    with 2 have "set ks \<subseteq> set (keys st1)" by simp
    moreover from create_missing_extends[OF "2.prems"] True have "k \<in> set (keys st1)"
      by (auto simp: contains_def keys_def)
    ultimately show ?thesis by simp
  next
    case False
    show ?thesis
    proof (cases "create k")
      case None
      with False 2 show ?thesis by simp
    next
      case (Some v)
      obtain ok' st' evs' where r: "create_missing create ks (st @ [new_entry k v]) = (ok', st', evs')"
        by (cases "create_missing create ks (st @ [new_entry k v])") auto
      from "2.prems" False Some r have eq: "ok' = True" "st1 = st'" by simp_all
      from "2.IH"(2)[OF False Some] r eq have "set ks \<subseteq> set (keys st1)" by simp
      moreover from create_missing_extends[OF r] eq have "k \<in> set (keys st1)"
        by (auto simp: keys_def new_entry_def)
      ultimately show ?thesis by simp
    qed
  qed
qed

lemma create_missing_present:
  "set S \<subseteq> set (keys st) \<Longrightarrow> create_missing create S st = (True, st, [])"
  by (induction S) (auto simp: contains_def)

lemma create_missing_distinct:
  "create_missing create S st = (ok, st1, evs) \<Longrightarrow> distinct (keys st) \<Longrightarrow> distinct (keys st1)"
proof (induction create S st arbitrary: ok st1 evs rule: create_missing.induct)
  case (1 create st)
  then show ?case by simp
next
  case (2 create k ks st)
  show ?case
  proof (cases "contains st k")
    case True
    with 2 show ?thesis by simp
  next
    case False
    show ?thesis
    proof (cases "create k")
      case None
      with False 2 show ?thesis by simp
    next
      case (Some v)
      obtain ok' st' evs' where r: "create_missing create ks (st @ [new_entry k v]) = (ok', st', evs')"
        by (cases "create_missing create ks (st @ [new_entry k v])") auto
      from "2.prems" False Some r have eq: "st1 = st'" by simp
      from False "2.prems"(2) have "distinct (keys (st @ [new_entry k v]))"
        by (simp add: keys_def contains_def new_entry_def)
      from "2.IH"(2)[OF False Some r this] eq show ?thesis by simp
    qed
  qed
qed

lemma set_first_occurrences: "set (first_occurrences S) = set S"
  by (induction S rule: first_occurrences.induct) auto

lemma distinct_first_occurrences: "distinct (first_occurrences S)"
  by (induction S rule: first_occurrences.induct) (auto simp: set_first_occurrences)

lemma first_occurrences_distinct: "distinct S \<Longrightarrow> first_occurrences S = S"
  by (induction S) auto

lemma key_filtered_out: "k \<notin> set (keys (filter (\<lambda>e'. key e' \<noteq> k) st))"
  by (auto simp: keys_def)

lemma keys_arrange: "set (keys (arrange S st)) = set S \<inter> set (keys st)"
proof (induction S st rule: arrange.induct)
  case (1 st)
  then show ?case by (simp add: keys_def)
next
  case (2 k ks st)
  show ?case
  proof (cases "find (\<lambda>e. key e = k) st")
    case None
    with 2 find_key_None[of k st] show ?thesis by auto
  next
    case (Some e)
    from find_key_Some[OF Some] have "key e = k" "k \<in> set (keys st)" by (auto simp: keys_def)
    with "2.IH"(2)[OF Some] Some show ?thesis
      by (auto simp: keys_def)
  qed
qed

lemma distinct_arrange: "distinct (keys (arrange S st))"
proof (induction S st rule: arrange.induct)
  case (1 st)
  then show ?case by (simp add: keys_def)
next
  case (2 k ks st)
  show ?case
  proof (cases "find (\<lambda>e. key e = k) st")
    case None
    with 2 show ?thesis by simp
  next
    case (Some e)
    from find_key_Some[OF Some] have ke: "key e = k" by simp
    have "k \<notin> set (keys (arrange ks (filter (\<lambda>e'. key e' \<noteq> k) st)))"
      using key_filtered_out[of k st] by (simp add: keys_arrange)
    with "2.IH"(2)[OF Some] Some ke show ?thesis
      by (simp add: keys_simps)
  qed
qed

lemma arrange_removeAll:
  "k \<notin> set (keys st) \<Longrightarrow> arrange (removeAll k ks) st = arrange ks st"
proof (induction ks arbitrary: st)
  case Nil
  then show ?case by simp
next
  case (Cons x xs)
  show ?case
  proof (cases "x = k")
    case True
    with Cons find_key_None[of k st] show ?thesis by simp
  next
    case False
    from Cons.prems have "k \<notin> set (keys (filter (\<lambda>e'. key e' \<noteq> x) st))"
      using keys_filter_subset by fastforce
    from Cons.IH[OF this] Cons.IH[OF Cons.prems] False show ?thesis
      by (simp split: option.splits)
  qed
qed

lemma keys_arrange_order:
  "set S \<subseteq> set (keys st) \<Longrightarrow> keys (arrange S st) = first_occurrences S"
proof (induction S arbitrary: st rule: first_occurrences.induct)
  case 1
  then show ?case by (simp add: keys_def)
next
  case (2 k ks)
  from "2.prems" obtain e where f: "find (\<lambda>e. key e = k) st = Some e"
    using find_key_None[of k st] by auto
  let ?st = "filter (\<lambda>e'. key e' \<noteq> k) st"
  have nk: "k \<notin> set (keys ?st)" by (rule key_filtered_out)
  from "2.prems" have "set (removeAll k ks) \<subseteq> set (keys ?st)"
    by (auto simp: keys_def)
  from "2.IH"[OF this] arrange_removeAll[OF nk]
  have "keys (arrange ks ?st) = first_occurrences (removeAll k ks)" by simp
  with f find_key_Some[OF f] show ?case by (simp add: keys_simps)
qed

lemma arrange_fixed:
  "keys st = first_occurrences S \<Longrightarrow> arrange S st = st"
proof (induction S arbitrary: st rule: first_occurrences.induct)
  case 1
  then show ?case by (simp add: keys_def)
next
  case (2 k ks)
  from "2.prems" obtain e st' where st: "st = e # st'" "key e = k"
    "keys st' = first_occurrences (removeAll k ks)"
    by (cases st) (auto simp: keys_def)
  have "k \<notin> set (keys st')" by (simp add: st(3) set_first_occurrences)
  then have flt: "filter (\<lambda>e'. key e' \<noteq> k) st' = st'"
    by (auto simp: keys_def filter_id_conv)
  from "2.IH"[OF st(3)] arrange_removeAll[OF \<open>k \<notin> set (keys st')\<close>]
  have "arrange ks st' = st'" by simp
  with st flt show ?case by simp
qed

lemma get_NotFound: "(get st k = Inl NotFound) = (k \<notin> set (keys st))"
  using find_key_None[of k st] by (auto simp: get_def split: option.splits)

lemma get_append: "k \<in> set (keys st) \<Longrightarrow> get (st @ new) k = get st k"
  by (induction st) (auto simp: get_def keys_def)

lemma get_map_of: "get st k = (case map_of (iterate st) k of None \<Rightarrow> Inl NotFound | Some v \<Rightarrow> Inr v)"
  by (induction st) (auto simp: get_def iterate_def)

lemma get_filter_other: "k \<noteq> x \<Longrightarrow> get (filter (\<lambda>e'. key e' \<noteq> x) st) k = get st k"
  by (induction st) (auto simp: get_def)

lemma get_arrange:
  "get (arrange S st) k = (if k \<in> set S then get st k else Inl NotFound)"
proof (induction S st rule: arrange.induct)
  case (1 st)
  then show ?case by (simp add: get_def)
next
  case (2 x xs st)
  show ?case
  proof (cases "find (\<lambda>e. key e = x) st")
    case None
    then have "get st x = Inl NotFound" by (simp add: get_def)
    with None "2.IH"(1)[OF None] show ?thesis by auto
  next
    case (Some e)
    from find_key_Some[OF Some] have ke: "key e = x" by simp
    show ?thesis
    proof (cases "k = x")
      case True
      with Some ke show ?thesis by (simp add: get_def)
    next
      case False
      with ke have "get (e # arrange xs (filter (\<lambda>e'. key e' \<noteq> x) st)) k
          = get (arrange xs (filter (\<lambda>e'. key e' \<noteq> x) st)) k"
        by (auto simp: get_def)
      with "2.IH"(2)[OF Some] get_filter_other[OF False, of st] Some False show ?thesis
        by simp
    qed
  qed
qed

lemma resync_ok:
  "resync create S st = (Inr u, st', evs) \<Longrightarrow>
     \<exists>st1 cevs. create_missing create S st = (True, st1, cevs) \<and> st' = arrange S st1
        \<and> evs = cevs @ map (\<lambda>e. Dispose (key e)) (stale S st1)"
  by (auto simp: resync_def split: prod.splits bool.splits)

lemma resync_failed:
  "resync create S st = (Inl err, st', evs) \<Longrightarrow>
     err = ResourceExhausted \<and> create_missing create S st = (False, st', evs)"
  by (auto simp: resync_def split: prod.splits bool.splits)

lemma resync_ok_keys:
  assumes "resync create S st = (Inr u, st', evs)"
  shows "keys st' = first_occurrences S"
proof -
  from resync_ok[OF assms] obtain st1 cevs where
    cm: "create_missing create S st = (True, st1, cevs)" and st': "st' = arrange S st1"
    by blast
  from create_missing_complete[OF cm] st' show ?thesis
    by (simp add: keys_arrange_order)
qed

lemma stale_none: "set (keys st) \<subseteq> set S \<Longrightarrow> stale S st = []"
  by (auto simp: stale_def keys_def filter_empty_conv)

lemma resync_present:
  "set (keys st) = set S \<Longrightarrow> resync create S st = (Inr (), arrange S st, [])"
  by (simp add: resync_def create_missing_present stale_none)

lemma resync_in_sync:
  assumes "keys st = first_occurrences S"
  shows "resync create S st = (Inr (), st, [])"
proof -
  from assms have "set (keys st) = set S" by (simp add: set_first_occurrences)
  from resync_present[OF this] arrange_fixed[OF assms] show ?thesis by simp
qed

lemma resync_total:
  assumes "\<And>k. create k \<noteq> None"
  shows "fst (resync create S st) = Inr ()"
proof -
  have "fst (create_missing create S st) = True" for st
  proof (induction S arbitrary: st)
    case Nil
    show ?case by simp
  next
    case (Cons k ks)
    from assms[of k] obtain v where "create k = Some v" by auto
    with Cons[of st] Cons[of "st @ [new_entry k v]"] show ?case
      by (auto split: prod.splits)
  qed
  from this[of st] show ?thesis
    by (cases "create_missing create S st") (auto simp: resync_def)
qed

lemma calls_for_simps:
  "calls_for k [] = []"
  "calls_for k (Create x # evs) = (if x = k then Create k # calls_for k evs else calls_for k evs)"
  "calls_for k (Dispose x # evs) = (if x = k then Dispose k # calls_for k evs else calls_for k evs)"
  "calls_for k (evs @ evs') = calls_for k evs @ calls_for k evs'"
  by (auto simp: calls_for_def)

lemma contains_append: "contains (st @ st') k = (contains st k \<or> contains st' k)"
  by (auto simp: contains_def keys_def)

lemma contains_new_entry: "contains [new_entry x v] k = (k = x)"
  by (auto simp: contains_def keys_def new_entry_def)

lemma create_missing_calls:
  "create_missing create S st = (ok, st1, evs) \<Longrightarrow> failing_key create S st \<noteq> Some k \<Longrightarrow>
     calls_for k evs = (if contains st1 k \<and> \<not> contains st k then [Create k] else [])"
proof (induction create S st arbitrary: ok st1 evs rule: create_missing.induct)
  case (1 create st)
  then show ?case by (auto simp: calls_for_simps)
next
  case (2 create x xs st)
  show ?case
  proof (cases "contains st x")
    case True
    with 2 show ?thesis by simp
  next
    case False
    show ?thesis
    proof (cases "create x")
      case None
      with False "2.prems" have "x \<noteq> k" "st1 = st" "evs = [Create x]" by auto
      then show ?thesis by (simp add: calls_for_simps)
    next
      case (Some w)
      obtain ok' st' evs' where r: "create_missing create xs (st @ [new_entry x w]) = (ok', st', evs')"
        by (cases "create_missing create xs (st @ [new_entry x w])") auto
      from "2.prems" False Some r have eq: "st1 = st'" "evs = Create x # evs'" by simp_all
      from "2.prems"(2) False Some have nf: "failing_key create xs (st @ [new_entry x w]) \<noteq> Some k"
        by simp
      from create_missing_extends[OF r] have ext: "contains st' x"
        by (auto simp: contains_def keys_def new_entry_def)
      from "2.IH"(2)[OF False Some r nf]
      have "calls_for k evs' =
          (if contains st' k \<and> \<not> contains (st @ [new_entry x w]) k then [Create k] else [])" .
      with eq False ext show ?thesis
        by (auto simp: calls_for_simps contains_append contains_new_entry)
    qed
  qed
qed

lemma failing_key_None:
  "(failing_key create S st = None) = fst (create_missing create S st)"
  by (induction create S st rule: create_missing.induct) (auto split: option.splits prod.splits)

lemma create_missing_never_enters:
  "create_missing create S st = (ok, st1, evs) \<Longrightarrow> create k = None \<Longrightarrow>
     \<not> contains st k \<Longrightarrow> \<not> contains st1 k"
proof (induction create S st arbitrary: ok st1 evs rule: create_missing.induct)
  case (1 create st)
  then show ?case by simp
next
  case (2 create x xs st)
  show ?case
  proof (cases "contains st x")
    case True
    with 2 show ?thesis by simp
  next
    case False
    show ?thesis
    proof (cases "create x")
      case None
      with False 2 show ?thesis by simp
    next
      case (Some w)
      obtain ok' st' evs' where r: "create_missing create xs (st @ [new_entry x w]) = (ok', st', evs')"
        by (cases "create_missing create xs (st @ [new_entry x w])") auto
      from "2.prems" False Some r have eq: "st1 = st'" by simp
      from Some "2.prems"(2) have "x \<noteq> k" by auto
      with "2.prems"(3) have "\<not> contains (st @ [new_entry x w]) k"
        by (simp add: contains_append contains_new_entry)
      from "2.IH"(2)[OF False Some r "2.prems"(2) this] eq show ?thesis by simp
    qed
  qed
qed

lemma dispose_calls:
  "distinct (keys st) \<Longrightarrow>
     calls_for k (map (\<lambda>e. Dispose (key e)) (stale S st))
       = (if contains st k \<and> k \<notin> set S then [Dispose k] else [])"
proof (induction st)
  case Nil
  then show ?case by (simp add: stale_def calls_for_def contains_def keys_def)
next
  case (Cons e st)
  then have IH: "calls_for k (map (\<lambda>e. Dispose (key e)) (stale S st))
       = (if contains st k \<and> k \<notin> set S then [Dispose k] else [])"
    and ne: "\<not> contains st (key e)"
    by (auto simp: keys_def contains_def)
  have st: "stale S (e # st) = (if key e \<notin> set S then e # stale S st else stale S st)"
    by (simp add: stale_def)
  have c: "contains (e # st) k = (k = key e \<or> contains st k)"
    by (auto simp: contains_def keys_def)
  from IH ne show ?case
    unfolding st c by (auto simp: calls_for_simps)
qed

lemma contains_arrange: "contains (arrange S st) k = (k \<in> set S \<and> contains st k)"
  by (simp add: contains_def keys_arrange)

lemma resync_calls:
  assumes r: "resync create S st = (res, st', evs)" and d: "distinct (keys st)"
    and c: "failing_key create S st \<noteq> Some k"
  shows "calls_for k evs =
           (if \<not> contains st k \<and> contains st' k then [Create k]
            else if contains st k \<and> \<not> contains st' k then [Dispose k] else [])"
proof (cases res)
  case (Inl err)
  with r resync_failed[of create S st err st' evs]
  have cm: "create_missing create S st = (False, st', evs)" by simp
  from create_missing_extends[OF cm] have "contains st k \<Longrightarrow> contains st' k"
    by (auto simp: contains_append)
  with create_missing_calls[OF cm c] show ?thesis by auto
next
  case (Inr u)
  with r resync_ok[of create S st u st' evs] obtain st1 cevs where
    cm: "create_missing create S st = (True, st1, cevs)" and st': "st' = arrange S st1"
    and evs: "evs = cevs @ map (\<lambda>e. Dispose (key e)) (stale S st1)"
    by auto
  from create_missing_extends[OF cm] obtain new where
    new: "st1 = st @ new" "set (keys new) \<subseteq> set S" by blast
  have sub: "contains st1 k = (contains st k \<or> (k \<in> set S \<and> contains st1 k))"
    using new by (auto simp: contains_def keys_def)
  from create_missing_complete[OF cm] have compl: "k \<in> set S \<Longrightarrow> contains st1 k"
    by (auto simp: contains_def)
  from create_missing_distinct[OF cm d] have "distinct (keys st1)" .
  from dispose_calls[OF this, of k S] create_missing_calls[OF cm c] sub compl
  show ?thesis
    unfolding evs st' by (auto simp: calls_for_simps contains_arrange)
qed

lemma resync_distinct:
  assumes "resync create S st = (res, st', evs)" "distinct (keys st)"
  shows "distinct (keys st')"
proof (cases res)
  case (Inl err)
  with assms resync_failed[of create S st err st' evs] create_missing_distinct[of create S st False st' evs]
  show ?thesis by simp
next
  case (Inr u)
  with assms resync_ok[of create S st u st' evs] show ?thesis
    by (auto simp: distinct_arrange)
qed

subsection \<open>The lifecycle of a key\<close>

lemma run_calls:
  "distinct (keys st) \<Longrightarrow> k \<notin> set (failed_creates run st) \<Longrightarrow>
     calls_for k (run_events run st) = transitions k (contains st k) (presence run st k)"
proof (induction run arbitrary: st)
  case Nil
  then show ?case by (simp add: run_events_def presence_def calls_for_def)
next
  case (Cons call run)
  obtain create S where call: "call = (create, S)" by (cases call) auto
  obtain res st' evs where r: "resync create S st = (res, st', evs)"
    by (cases "resync create S st") auto
  from resync_distinct[OF r Cons.prems(1)] have d': "distinct (keys st')" .
  from Cons.prems(2) call r have nf: "failing_key create S st \<noteq> Some k"
    and nf': "k \<notin> set (failed_creates run st')"
    by (auto split: option.splits)
  have ev: "run_events (call # run) st = evs @ run_events run st'"
    using r call by (simp add: run_events_def)
  have pr: "presence (call # run) st k = contains st' k # presence run st' k"
    using r call by (simp add: presence_def)
  from Cons.IH[OF d' nf'] resync_calls[OF r Cons.prems(1) nf]
  show ?case unfolding ev pr by (simp add: calls_for_simps)
qed

lemma transitions_absent: "transitions k False (replicate a False @ bs) = transitions k False bs"
  by (induction a) auto

lemma transitions_present: "transitions k True (replicate b True @ bs) = transitions k True bs"
  by (induction b) auto

lemma transitions_enter:
  "0 < b \<Longrightarrow> transitions k False (replicate b True @ bs) = Create k # transitions k True bs"
  by (cases b) (auto simp: transitions_present)

lemma transitions_leave:
  "0 < c \<Longrightarrow> transitions k True (replicate c False) = [Dispose k]"
  using transitions_absent[of k _ "[]"] by (cases c) auto

text \<open>
  Claim C7, as amended. A key that is absent at first, then enters the store and later
  leaves it, once each over a sequence of \<open>resync\<close> calls, and for which no
  \<open>create\<close> call fails during the sequence, sees exactly one \<open>create\<close> call and
  exactly one \<open>dispose\<close> call, the \<open>create\<close> before the \<open>dispose\<close>.
\<close>

theorem exactly_once_lifecycle:
  assumes d: "distinct (keys st)" and nk: "\<not> contains st k"
    and nf: "k \<notin> set (failed_creates run st)"
    and p: "presence run st k = replicate a False @ replicate b True @ replicate c False"
    and b: "0 < b" and c: "0 < c"
  shows "calls_for k (run_events run st) = [Create k, Dispose k]"
proof -
  from run_calls[OF d nf] nk p
  have "calls_for k (run_events run st)
      = transitions k False (replicate a False @ replicate b True @ replicate c False)"
    by simp
  also have "\<dots> = [Create k, Dispose k]"
    by (simp add: transitions_absent transitions_enter[OF b] transitions_leave[OF c])
  finally show ?thesis .
qed

theorem exactly_once_lifecycle_witness:
  "distinct (keys ([] :: (layer, nat) store)) \<and> \<not> contains ([] :: (layer, nat) store) LayerA
   \<and> LayerA \<notin> set (failed_creates steady_run [])
   \<and> presence steady_run [] LayerA = replicate 0 False @ replicate 2 True @ replicate 1 False
   \<and> calls_for LayerA (run_events steady_run []) = [Create LayerA, Dispose LayerA]"
proof -
  have d: "distinct (keys ([] :: (layer, nat) store))" by (simp add: keys_def)
  have nk: "\<not> contains ([] :: (layer, nat) store) LayerA" by (simp add: contains_def keys_def)
  have nf: "LayerA \<notin> set (failed_creates steady_run [])"
    by (simp add: steady_run_def fails_on_B_def plain_def resync_def contains_def keys_def
        new_entry_def stale_def)
  have p: "presence steady_run [] LayerA = replicate 0 False @ replicate 2 True @ replicate 1 False"
    by (simp add: steady_run_def presence_def fails_on_B_def plain_def resync_def contains_def
        keys_def new_entry_def stale_def numeral_2_eq_2)
  have b: "(0::nat) < 2" and c: "(0::nat) < 1" by simp_all
  show ?thesis
    by (rule conjI[OF d conjI[OF nk conjI[OF nf conjI[OF p exactly_once_lifecycle[OF d nk nf p b c]]]]])
qed

text \<open>
  The claim as stated fails when a construction fails and the caller tries again: the
  key enters once and leaves once, and \<open>create\<close> has been called twice for it.
\<close>

theorem exactly_once_lifecycle_counterexample:
  "presence retry_run [] LayerA = [False, True, False]
   \<and> calls_for LayerA (run_events retry_run []) = [Create LayerA, Create LayerA, Dispose LayerA]"
  by (simp add: retry_run_def presence_def run_events_def calls_for_def exhausted_def plain_def
      resync_def contains_def keys_def new_entry_def stale_def)

subsection \<open>Resynchronisation\<close>

lemma keys_iterate: "map fst (iterate st) = keys st"
  by (simp add: iterate_def keys_def)

text \<open>
  Claim C6. After a \<open>resync\<close> that completes without error the key set of the store is
  the set of the authoritative sequence and \<open>iterate\<close> yields the keys in the order of
  the sequence (the sequence itself when it names no key twice). When the sequence only
  reorders the keys of the store, the order is updated with no \<open>create\<close> and no
  \<open>dispose\<close> call, and every value is kept.
\<close>

theorem resync_set_equality_and_order:
  "(resync create S st = (Inr (), st', evs) \<longrightarrow>
      set (keys st') = set S
      \<and> map fst (iterate st') = first_occurrences S
      \<and> (distinct S \<longrightarrow> map fst (iterate st') = S))
   \<and> (set (keys st) = set S \<longrightarrow>
        (\<exists>st''. resync create S st = (Inr (), st'', [])
           \<and> map fst (iterate st'') = first_occurrences S
           \<and> (\<forall>k. get st'' k = get st k)))"
proof (intro conjI impI)
  assume r: "resync create S st = (Inr (), st', evs)"
  from resync_ok_keys[OF r] show "set (keys st') = set S"
    by (simp add: set_first_occurrences)
  from resync_ok_keys[OF r] show o: "map fst (iterate st') = first_occurrences S"
    by (simp add: keys_iterate)
  assume "distinct S"
  with o show "map fst (iterate st') = S" by (simp add: first_occurrences_distinct)
next
  assume s: "set (keys st) = set S"
  have g: "get (arrange S st) k = get st k" for k
    using s get_NotFound[of st k] by (auto simp: get_arrange)
  from s have "keys (arrange S st) = first_occurrences S"
    by (simp add: keys_arrange_order)
  with resync_present[OF s, of create] g
  show "\<exists>st''. resync create S st = (Inr (), st'', [])
           \<and> map fst (iterate st'') = first_occurrences S
           \<and> (\<forall>k. get st'' k = get st k)"
    by (simp add: keys_iterate)
qed

theorem resync_set_equality_and_order_witness:
  "resync plain [LayerB, LayerA] [new_entry LayerA 5]
      = (Inr (), [new_entry LayerB 0, new_entry LayerA 5], [Create LayerB])
   \<and> distinct [LayerB, LayerA]
   \<and> map fst (iterate [new_entry LayerB 0, new_entry LayerA (5::nat)]) = [LayerB, LayerA]
   \<and> set (keys [new_entry LayerA (1::nat), new_entry LayerB 2]) = set [LayerB, LayerA]
   \<and> (\<exists>st''. resync plain [LayerB, LayerA] [new_entry LayerA 1, new_entry LayerB 2] = (Inr (), st'', [])
         \<and> map fst (iterate st'') = first_occurrences [LayerB, LayerA]
         \<and> (\<forall>k. get st'' k = get [new_entry LayerA 1, new_entry LayerB 2] k))"
proof -
  have r: "resync plain [LayerB, LayerA] [new_entry LayerA 5]
      = (Inr (), [new_entry LayerB 0, new_entry LayerA 5], [Create LayerB])"
    by (simp add: resync_def contains_def keys_def new_entry_def plain_def stale_def)
  have d: "distinct [LayerB, LayerA]" by simp
  have s: "set (keys [new_entry LayerA (1::nat), new_entry LayerB 2]) = set [LayerB, LayerA]"
    by (auto simp: keys_def new_entry_def)
  from r d s
    resync_set_equality_and_order[of plain "[LayerB, LayerA]" "[new_entry LayerA 5]"
      "[new_entry LayerB 0, new_entry LayerA 5]" "[Create LayerB]"]
    resync_set_equality_and_order[of plain "[LayerB, LayerA]" "[new_entry LayerA 1, new_entry LayerB 2]"]
  show ?thesis by simp
qed

text \<open>
  Claim C8, as amended. When \<open>resync(S)\<close> has completed without error, a second
  \<open>resync(S)\<close> right after it makes no \<open>create\<close> and no \<open>dispose\<close> call and leaves the
  store as it is.
\<close>

theorem resync_idempotent:
  "resync create S st = (Inr (), st', evs) \<Longrightarrow> resync create S st' = (Inr (), st', [])"
  using resync_ok_keys[of create S st "()" st' evs] by (simp add: resync_in_sync)

theorem resync_idempotent_witness:
  "resync plain [LayerA, LayerB] [] = (Inr (), [new_entry LayerA 0, new_entry LayerB 0], [Create LayerA, Create LayerB])
   \<and> resync plain [LayerA, LayerB] [new_entry LayerA 0, new_entry LayerB 0]
        = (Inr (), [new_entry LayerA 0, new_entry LayerB 0], [])"
proof -
  have r: "resync plain [LayerA, LayerB] []
     = (Inr (), [new_entry LayerA 0, new_entry LayerB 0], [Create LayerA, Create LayerB])"
    by (simp add: resync_def contains_def keys_def new_entry_def plain_def stale_def)
  from r resync_idempotent[OF r] show ?thesis by simp
qed

text \<open>
  The claim as stated fails when the first call fails: the \<open>create\<close> that failed is
  requested again by the second call.
\<close>

theorem resync_idempotent_counterexample:
  "snd (snd (resync exhausted [LayerA] (fst (snd (resync exhausted [LayerA] []))))) = [Create LayerA]"
  by (simp add: resync_def contains_def keys_def exhausted_def)

subsection \<open>A failing factory\<close>

lemma create_missing_fails:
  "a \<in> set S \<Longrightarrow> \<not> contains st a \<Longrightarrow> create a = None \<Longrightarrow>
     fst (create_missing create S st) = False"
proof (induction create S st rule: create_missing.induct)
  case (1 create st)
  then show ?case by simp
next
  case (2 create x xs st)
  show ?case
  proof (cases "contains st x")
    case True
    with 2 show ?thesis by auto
  next
    case False
    show ?thesis
    proof (cases "create x")
      case None
      with False show ?thesis by simp
    next
      case (Some w)
      with "2.prems" have "a \<in> set xs" "\<not> contains (st @ [new_entry x w]) a"
        by (auto simp: contains_append contains_new_entry)
      from "2.IH"(2)[OF False Some this "2.prems"(3)] False Some show ?thesis
        by (cases "create_missing create xs (st @ [new_entry x w])") auto
    qed
  qed
qed

lemma get_new_entry: "\<not> contains st k \<Longrightarrow> get (st @ [new_entry k v]) k = Inr v"
  by (induction st) (auto simp: get_def contains_def keys_def new_entry_def)

lemma create_missing_created:
  "create_missing create S st = (ok, st1, evs) \<Longrightarrow> Create k \<in> set evs \<Longrightarrow>
     create k = Some v \<Longrightarrow> get st1 k = Inr v"
proof (induction create S st arbitrary: ok st1 evs rule: create_missing.induct)
  case (1 create st)
  then show ?case by simp
next
  case (2 create x xs st)
  show ?case
  proof (cases "contains st x")
    case True
    with 2 show ?thesis by simp
  next
    case False
    show ?thesis
    proof (cases "create x")
      case None
      with False 2 show ?thesis by auto
    next
      case (Some w)
      obtain ok' st' evs' where r: "create_missing create xs (st @ [new_entry x w]) = (ok', st', evs')"
        by (cases "create_missing create xs (st @ [new_entry x w])") auto
      from "2.prems" False Some r have eq: "st1 = st'" "evs = Create x # evs'" by simp_all
      show ?thesis
      proof (cases "k = x")
        case True
        from create_missing_extends[OF r] obtain new where "st' = (st @ [new_entry x w]) @ new"
          by blast
        moreover have "x \<in> set (keys (st @ [new_entry x w]))"
          by (simp add: keys_def new_entry_def)
        ultimately have "get st' x = get (st @ [new_entry x w]) x"
          by (simp only: get_append)
        with get_new_entry[OF False, of w] True Some "2.prems"(3) eq show ?thesis by simp
      next
        case False
        with "2.prems"(2) eq have "Create k \<in> set evs'" by simp
        from "2.IH"(2)[OF \<open>\<not> contains st x\<close> Some r this "2.prems"(3)] eq show ?thesis by simp
      qed
    qed
  qed
qed

text \<open>
  Claim C9. When a \<open>create\<close> fails during \<open>resync\<close>, the call returns
  \<open>ResourceExhausted\<close>, no key whose construction fails can be reached with \<open>get\<close>, the
  entries that were in the store are still there, and so are the entries created
  earlier in the same call. In particular \<open>resync([A])\<close> on the empty store, failing
  inside \<open>create(A)\<close>, leaves the store empty.
\<close>

theorem resync_create_failure:
  "(a \<in> set S \<and> \<not> contains st a \<and> create a = None \<longrightarrow>
      (\<exists>st' evs. resync create S st = (Inl ResourceExhausted, st', evs)
         \<and> (\<forall>k. create k = None \<and> \<not> contains st k \<longrightarrow> get st' k = Inl NotFound)
         \<and> (\<forall>k. contains st k \<longrightarrow> get st' k = get st k)
         \<and> (\<forall>k v. Create k \<in> set evs \<and> create k = Some v \<longrightarrow> get st' k = Inr v)))
   \<and> (create a = None \<longrightarrow> resync create [a] [] = (Inl ResourceExhausted, [], [Create a]))"
proof (intro conjI impI)
  assume h: "a \<in> set S \<and> \<not> contains st a \<and> create a = None"
  obtain ok st' evs where cm: "create_missing create S st = (ok, st', evs)"
    by (cases "create_missing create S st") auto
  with create_missing_fails[of a S st create] h have cm': "create_missing create S st = (False, st', evs)"
    by simp
  then have r: "resync create S st = (Inl ResourceExhausted, st', evs)"
    by (simp add: resync_def)
  have 1: "get st' k = Inl NotFound" if "create k = None \<and> \<not> contains st k" for k
    using create_missing_never_enters[OF cm', of k] that
    by (simp add: get_NotFound contains_def)
  from create_missing_extends[OF cm'] obtain new where "st' = st @ new" by blast
  then have 2: "get st' k = get st k" if "contains st k" for k
    using that by (simp add: get_append contains_def)
  have 3: "get st' k = Inr v" if "Create k \<in> set evs \<and> create k = Some v" for k v
    using create_missing_created[OF cm', of k v] that by simp
  from r 1 2 3
  show "\<exists>st' evs. resync create S st = (Inl ResourceExhausted, st', evs)
         \<and> (\<forall>k. create k = None \<and> \<not> contains st k \<longrightarrow> get st' k = Inl NotFound)
         \<and> (\<forall>k. contains st k \<longrightarrow> get st' k = get st k)
         \<and> (\<forall>k v. Create k \<in> set evs \<and> create k = Some v \<longrightarrow> get st' k = Inr v)"
    by blast
next
  assume "create a = None"
  then show "resync create [a] [] = (Inl ResourceExhausted, [], [Create a])"
    by (simp add: resync_def contains_def keys_def)
qed

theorem resync_create_failure_witness:
  "LayerB \<in> set [LayerA, LayerB, LayerC] \<and> \<not> contains ([] :: (layer, nat) store) LayerB \<and> fails_on_B LayerB = None
   \<and> (\<exists>st' evs. resync fails_on_B [LayerA, LayerB, LayerC] [] = (Inl ResourceExhausted, st', evs)
         \<and> (\<forall>k. fails_on_B k = None \<and> \<not> contains ([] :: (layer, nat) store) k \<longrightarrow> get st' k = Inl NotFound)
         \<and> (\<forall>k. contains ([] :: (layer, nat) store) k \<longrightarrow> get st' k = get [] k)
         \<and> (\<forall>k v. Create k \<in> set evs \<and> fails_on_B k = Some v \<longrightarrow> get st' k = Inr v))
   \<and> resync fails_on_B [LayerB] [] = (Inl ResourceExhausted, [], [Create LayerB])
   \<and> resync fails_on_B [LayerA, LayerB, LayerC] []
        = (Inl ResourceExhausted, [new_entry LayerA 0], [Create LayerA, Create LayerB])"
proof -
  have h1: "LayerB \<in> set [LayerA, LayerB, LayerC]" by simp
  have h2: "\<not> contains ([] :: (layer, nat) store) LayerB" by (simp add: contains_def keys_def)
  have h3: "fails_on_B LayerB = None" by (simp add: fails_on_B_def)
  have e: "resync fails_on_B [LayerA, LayerB, LayerC] []
        = (Inl ResourceExhausted, [new_entry LayerA 0], [Create LayerA, Create LayerB])"
    by (simp add: resync_def contains_def keys_def fails_on_B_def new_entry_def)
  note t = resync_create_failure[of LayerB "[LayerA, LayerB, LayerC]" "[]" fails_on_B]
  note A = t[THEN conjunct1, THEN mp, OF conjI[OF h1 conjI[OF h2 h3]]]
  note B = t[THEN conjunct2, THEN mp, OF h3]
  show ?thesis
    by (rule conjI[OF h1 conjI[OF h2 conjI[OF h3 conjI[OF A conjI[OF B e]]]]])
qed

section \<open>Properties of the layer-associated model\<close>

subsection \<open>What the methods do\<close>

lemma create_missing_events:
  "create_missing create S st = (ok, st1, evs) \<Longrightarrow> list_all is_factory_call evs"
proof (induction create S st arbitrary: ok st1 evs rule: create_missing.induct)
  case (1 create st)
  then show ?case by auto
next
  case (2 create x xs st)
  show ?case
  proof (cases "contains st x")
    case True
    with 2 show ?thesis by simp
  next
    case False
    show ?thesis
    proof (cases "create x")
      case None
      with False 2 show ?thesis by (auto simp: is_factory_call_def)
    next
      case (Some w)
      obtain ok' st' evs' where r: "create_missing create xs (st @ [new_entry x w]) = (ok', st', evs')"
        by (cases "create_missing create xs (st @ [new_entry x w])") auto
      from "2.prems" False Some r have eq: "evs = Create x # evs'" by simp
      from "2.IH"(2)[OF False Some r] eq show ?thesis by (simp add: is_factory_call_def)
    qed
  qed
qed

lemma resync_events:
  assumes "resync create S st = (res, st', evs)"
  shows "list_all is_factory_call evs"
proof (cases res)
  case (Inl err)
  with assms resync_failed[of create S st err st' evs] create_missing_events[of create S st False st' evs]
  show ?thesis by simp
next
  case (Inr u)
  with assms resync_ok[of create S st u st' evs] obtain st1 cevs where
    cm: "create_missing create S st = (True, st1, cevs)"
    and evs: "evs = cevs @ map (\<lambda>e. Dispose (key e)) (stale S st1)"
    by auto
  from create_missing_events[OF cm] show ?thesis
    unfolding evs by (auto simp: list_all_iff is_factory_call_def)
qed

lemma resync_disposes:
  assumes r: "resync create S st = (Inr u, st', evs)" and c: "contains st k" and n: "k \<notin> set S"
  shows "Dispose k \<in> set evs"
proof -
  from resync_ok[OF r] obtain st1 cevs where
    cm: "create_missing create S st = (True, st1, cevs)"
    and evs: "evs = cevs @ map (\<lambda>e. Dispose (key e)) (stale S st1)"
    by auto
  from create_missing_extends[OF cm] c have "contains st1 k" by (auto simp: contains_append)
  with n have "k \<in> key ` set (stale S st1)"
    by (auto simp: contains_def keys_def stale_def)
  then show ?thesis unfolding evs by auto
qed

lemma Update_result:
  "\<exists>st' evs. resync (CreateProperty p0) S (m_LayerProperties m) = (Inr (), st', evs)
      \<and> keys st' = first_occurrences S
      \<and> Update p0 S m = (Inr (), m\<lparr>m_LayerProperties := st', trace := trace m @ evs\<rparr>)"
proof -
  have "fst (resync (CreateProperty p0) S (m_LayerProperties m)) = Inr ()"
    by (rule resync_total) (simp add: CreateProperty_def)
  then obtain st' evs where r: "resync (CreateProperty p0) S (m_LayerProperties m) = (Inr (), st', evs)"
    by (cases "resync (CreateProperty p0) S (m_LayerProperties m)") auto
  from r resync_ok_keys[OF r] show ?thesis by (simp add: Update_def)
qed

lemma found_in_sync:
  "keys st = first_occurrences S \<Longrightarrow> found st layer = (case layer of None \<Rightarrow> False | Some k \<Rightarrow> k \<in> set S)"
  by (simp add: found_def contains_def set_first_occurrences split: option.splits)

lemma SetLayer_result:
  "\<exists>st' evs. resync (CreateProperty p0) S (m_LayerProperties m) = (Inr (), st', evs)
      \<and> keys st' = first_occurrences S
      \<and> SetLayer p0 S layer m =
          (Inr (), m\<lparr>m_Layer := layer, m_LayerProperties := st',
             trace := trace m @ evs
               @ (case m_Layer m of None \<Rightarrow> [] | Some old \<Rightarrow> if old \<in> set S then [UnRegister old] else [])
               @ (case layer of None \<Rightarrow> [] | Some l \<Rightarrow> [Register l])
               @ [ActiveLayerChanged]\<rparr>)"
proof -
  from Update_result[of p0 S m] obtain st' evs where
    r: "resync (CreateProperty p0) S (m_LayerProperties m) = (Inr (), st', evs)"
    and k: "keys st' = first_occurrences S"
    and u: "Update p0 S m = (Inr (), m\<lparr>m_LayerProperties := st', trace := trace m @ evs\<rparr>)"
    by blast
  from k have c: "contains st' x = (x \<in> set S)" for x
    by (simp add: contains_def set_first_occurrences)
  have "SetLayer p0 S layer m =
          (Inr (), m\<lparr>m_Layer := layer, m_LayerProperties := st',
             trace := trace m @ evs
               @ (case m_Layer m of None \<Rightarrow> [] | Some old \<Rightarrow> if old \<in> set S then [UnRegister old] else [])
               @ (case layer of None \<Rightarrow> [] | Some l \<Rightarrow> [Register l])
               @ [ActiveLayerChanged]\<rparr>)"
    by (simp add: SetLayer_def u c invoke_def Let_def split: option.splits)
  with r k show ?thesis by blast
qed

lemma OnUpdate_stale:
  assumes "m_Layer m = Some k" "k \<notin> set S"
  shows "\<exists>st' evs. resync (CreateProperty p0) S (m_LayerProperties m) = (Inr (), st', evs)
      \<and> OnUpdate p0 True S m =
          (Inr (), m\<lparr>m_Layer := None, m_LayerProperties := st',
                    trace := trace m @ evs @ [ActiveLayerChanged]\<rparr>)"
proof -
  from Update_result[of p0 S m] obtain st' evs where
    r: "resync (CreateProperty p0) S (m_LayerProperties m) = (Inr (), st', evs)"
    and k: "keys st' = first_occurrences S"
    and u: "Update p0 S m = (Inr (), m\<lparr>m_LayerProperties := st', trace := trace m @ evs\<rparr>)"
    by blast
  let ?m1 = "m\<lparr>m_LayerProperties := st', trace := trace m @ evs\<rparr>"
  from k assms have nf: "\<not> found (m_LayerProperties ?m1) (m_Layer ?m1)"
    by (simp add: found_in_sync)
  from SetLayer_result[of p0 S ?m1 None] resync_in_sync[OF k, of "CreateProperty p0"] assms
  have "SetLayer p0 S None ?m1 =
          (Inr (), m\<lparr>m_Layer := None, m_LayerProperties := st',
                    trace := trace m @ evs @ [ActiveLayerChanged]\<rparr>)"
    by auto
  with u nf r show ?thesis by (simp add: OnUpdate_def)
qed

subsection \<open>Two concrete runs\<close>

lemma selected_A_eq:
  "selected_A = \<lparr>m_Layer = Some LayerA,
       m_LayerProperties = [new_entry LayerA 0, new_entry LayerB 0],
       trace = [Create LayerA, Create LayerB, Register LayerA, ActiveLayerChanged]\<rparr>"
  by (simp add: selected_A_def SetLayer_def Update_def resync_def CreateProperty_def
      initial_def contains_def keys_def new_entry_def stale_def invoke_def)

lemma only_A_eq:
  "only_A = \<lparr>m_Layer = Some LayerA, m_LayerProperties = [new_entry LayerA 0],
       trace = [Create LayerA, Register LayerA, ActiveLayerChanged]\<rparr>"
  by (simp add: only_A_def SetLayer_def Update_def resync_def CreateProperty_def
      initial_def contains_def keys_def new_entry_def stale_def invoke_def)

lemma OnUpdate_selected_A:
  "OnUpdate 0 True [LayerB, LayerC] selected_A =
     (Inr (), \<lparr>m_Layer = None,
        m_LayerProperties = [new_entry LayerB 0, new_entry LayerC 0],
        trace = [Create LayerA, Create LayerB, Register LayerA, ActiveLayerChanged,
                 Create LayerC, Dispose LayerA, ActiveLayerChanged]\<rparr>)"
  by (simp add: selected_A_eq OnUpdate_def SetLayer_def Update_def resync_def CreateProperty_def
      contains_def keys_def new_entry_def stale_def invoke_def found_def)

lemma OnUpdate_only_A:
  "OnUpdate 0 True [] only_A =
     (Inr (), \<lparr>m_Layer = None, m_LayerProperties = [],
        trace = [Create LayerA, Register LayerA, ActiveLayerChanged,
                 Dispose LayerA, ActiveLayerChanged]\<rparr>)"
  by (simp add: only_A_eq OnUpdate_def SetLayer_def Update_def resync_def CreateProperty_def
      contains_def keys_def new_entry_def stale_def invoke_def found_def)


subsection \<open>Structural changes that remove the selected layer\<close>

text \<open>
  Claim C1, as amended. From a state in which layer \<open>k\<close> is selected, \<^verbatim>\<open>OnUpdate\<close> with
  a \<^verbatim>\<open>LayerChangeEvent\<close> and a layer sequence without \<open>k\<close> ends with no layer selected,
  makes no \<^verbatim>\<open>UnRegisterFromLayer\<close> call and fires \<^verbatim>\<open>ActiveLayerChangedEvent\<close>
  exactly once.
\<close>

theorem selection_reset_on_staleness:
  assumes "m_Layer m = Some k" and "k \<notin> set S"
  shows "fst (OnUpdate p0 True S m) = Inr ()
     \<and> m_Layer (snd (OnUpdate p0 True S m)) = None
     \<and> \<not> contains (m_LayerProperties (snd (OnUpdate p0 True S m))) k
     \<and> count_list (calls_added m (snd (OnUpdate p0 True S m))) (UnRegister k) = 0
     \<and> count_list (calls_added m (snd (OnUpdate p0 True S m))) ActiveLayerChanged = 1"
proof -
  from OnUpdate_stale[OF assms, of p0] obtain st' evs where
    r: "resync (CreateProperty p0) S (m_LayerProperties m) = (Inr (), st', evs)"
    and o: "OnUpdate p0 True S m =
       (Inr (), m\<lparr>m_Layer := None, m_LayerProperties := st',
                  trace := trace m @ evs @ [ActiveLayerChanged]\<rparr>)"
    by blast
  from resync_events[OF r] have f: "\<And>e. e \<in> set evs \<Longrightarrow> is_factory_call e"
    by (simp add: list_all_iff)
  have "UnRegister k \<notin> set evs" "ActiveLayerChanged \<notin> set evs"
    using f[of "UnRegister k"] f[of ActiveLayerChanged] by (auto simp: is_factory_call_def)
  then have c: "count_list evs (UnRegister k) = 0" "count_list evs ActiveLayerChanged = 0"
    by (simp_all add: count_list_0_iff)
  from resync_ok_keys[OF r] assms(2) have "\<not> contains st' k"
    by (simp add: contains_def set_first_occurrences)
  with o c show ?thesis by (simp add: calls_added_def)
qed

theorem selection_reset_on_staleness_witness:
  "m_Layer selected_A = Some LayerA \<and> LayerA \<notin> set [LayerB, LayerC]
   \<and> fst (OnUpdate 0 True [LayerB, LayerC] selected_A) = Inr ()
   \<and> m_Layer (snd (OnUpdate 0 True [LayerB, LayerC] selected_A)) = None
   \<and> count_list (calls_added selected_A (snd (OnUpdate 0 True [LayerB, LayerC] selected_A)))
        (UnRegister LayerA) = 0
   \<and> count_list (calls_added selected_A (snd (OnUpdate 0 True [LayerB, LayerC] selected_A)))
        ActiveLayerChanged = 1"
proof -
  have h1: "m_Layer selected_A = Some LayerA" by (simp add: selected_A_eq)
  have h2: "LayerA \<notin> set [LayerB, LayerC]" by simp
  from h1 h2 selection_reset_on_staleness[OF h1 h2, of 0] show ?thesis by simp
qed

text \<open>
  The claim as stated asks for exactly one \<^verbatim>\<open>UnRegisterFromLayer\<close> call; in the
  scenario of section 8 of the specification there is none.
\<close>

theorem selection_reset_on_staleness_counterexample:
  "m_Layer selected_A = Some LayerA \<and> LayerA \<notin> set [LayerB, LayerC]
   \<and> count_list (calls_added selected_A (snd (OnUpdate 0 True [LayerB, LayerC] selected_A)))
        (UnRegister LayerA) \<noteq> 1"
  by (simp add: OnUpdate_selected_A) (simp add: selected_A_eq calls_added_def)

text \<open>
  Claim C3, as amended. When a structural change removes the selected layer \<open>k\<close>, the
  store disposes of the entry of \<open>k\<close> first; \<^verbatim>\<open>SetLayer(NULL)\<close> runs after that, fires
  \<^verbatim>\<open>ActiveLayerChangedEvent\<close>, and makes no \<^verbatim>\<open>UnRegisterFromLayer\<close> call for \<open>k\<close>,
  neither before nor after the disposal.
\<close>

theorem dispose_precedes_reset:
  assumes "m_Layer m = Some k" and "contains (m_LayerProperties m) k" and "k \<notin> set S"
  shows "\<exists>pre post.
           calls_added m (snd (OnUpdate p0 True S m)) = pre @ Dispose k # post @ [ActiveLayerChanged]
         \<and> UnRegister k \<notin> set (calls_added m (snd (OnUpdate p0 True S m)))"
proof -
  from OnUpdate_stale[OF assms(1,3), of p0] obtain st' evs where
    r: "resync (CreateProperty p0) S (m_LayerProperties m) = (Inr (), st', evs)"
    and o: "OnUpdate p0 True S m =
       (Inr (), m\<lparr>m_Layer := None, m_LayerProperties := st',
                  trace := trace m @ evs @ [ActiveLayerChanged]\<rparr>)"
    by blast
  from resync_disposes[OF r assms(2,3)] obtain pre post where s: "evs = pre @ Dispose k # post"
    by (auto simp: in_set_conv_decomp)
  from resync_events[OF r] have "is_factory_call e" if "e \<in> set evs" for e
    using that by (simp add: list_all_iff)
  from this[of "UnRegister k"] have n: "UnRegister k \<notin> set evs"
    by (auto simp: is_factory_call_def)
  from o have c: "calls_added m (snd (OnUpdate p0 True S m)) = evs @ [ActiveLayerChanged]"
    by (simp add: calls_added_def)
  from n s show ?thesis unfolding c by auto
qed

theorem dispose_precedes_reset_witness:
  "m_Layer only_A = Some LayerA \<and> contains (m_LayerProperties only_A) LayerA
   \<and> LayerA \<notin> set ([] :: layer list)
   \<and> (\<exists>pre post.
         calls_added only_A (snd (OnUpdate 0 True [] only_A)) = pre @ Dispose LayerA # post @ [ActiveLayerChanged]
       \<and> UnRegister LayerA \<notin> set (calls_added only_A (snd (OnUpdate 0 True [] only_A))))"
proof -
  have h1: "m_Layer only_A = Some LayerA" by (simp add: only_A_eq)
  have h2: "contains (m_LayerProperties only_A) LayerA"
    by (simp add: only_A_eq contains_def keys_def new_entry_def)
  have h3: "LayerA \<notin> set ([] :: layer list)" by simp
  show ?thesis
    by (rule conjI[OF h1 conjI[OF h2 conjI[OF h3 dispose_precedes_reset[OF h1 h2 h3, of 0]]]])
qed

text \<open>
  The claim as stated says that the entry is never disposed first with the detach
  skipped; here the entry of the selected layer is disposed and no detach is made.
\<close>

theorem dispose_precedes_reset_counterexample:
  "m_Layer only_A = Some LayerA
   \<and> calls_added only_A (snd (OnUpdate 0 True [] only_A)) = [Dispose LayerA, ActiveLayerChanged]"
  by (simp add: OnUpdate_only_A) (simp add: only_A_eq calls_added_def)

subsection \<open>Selecting the same layer again\<close>




subsection \<open>The invariant of the active selection\<close>

lemma OnUpdate_valid: "selection_valid (snd (OnUpdate p0 True S m))"
proof -
  from Update_result[of p0 S m] obtain st' evs where
    k: "keys st' = first_occurrences S"
    and u: "Update p0 S m = (Inr (), m\<lparr>m_LayerProperties := st', trace := trace m @ evs\<rparr>)"
    by blast
  let ?m1 = "m\<lparr>m_LayerProperties := st', trace := trace m @ evs\<rparr>"
  show ?thesis
  proof (cases "found st' (m_Layer m)")
    case True
    with u have "OnUpdate p0 True S m = (Inr (), ?m1)" by (simp add: OnUpdate_def)
    with True show ?thesis
      by (simp add: selection_valid_def found_def split: option.splits)
  next
    case False
    with u have "OnUpdate p0 True S m = SetLayer p0 S None ?m1" by (simp add: OnUpdate_def)
    with SetLayer_result[of p0 S ?m1 None] show ?thesis
      by (auto simp: selection_valid_def)
  qed
qed

text \<open>
  Claim C4, as amended. The invariant, that an active layer other than \<^verbatim>\<open>NULL\<close> has an
  entry in the store, holds after the constructor, after \<^verbatim>\<open>SetParentModel\<close>, after
  \<^verbatim>\<open>OnUpdate\<close> with a \<^verbatim>\<open>LayerChangeEvent\<close>, and after \<^verbatim>\<open>SetLayer(layer)\<close> when
  \<open>layer\<close> is \<^verbatim>\<open>NULL\<close> or one of the layers of the image data; \<^verbatim>\<open>OnUpdate\<close> without a
  \<^verbatim>\<open>LayerChangeEvent\<close> preserves it.
\<close>

theorem selection_invariant:
  "selection_valid (initial :: ('k, 'v) model)
   \<and> selection_valid (snd (SetParentModel p0 S (m :: ('k, 'v) model)))
   \<and> selection_valid (snd (OnUpdate p0 True S m))
   \<and> (selection_valid m \<longrightarrow> selection_valid (snd (OnUpdate p0 False S m)))
   \<and> ((layer = None \<or> (\<exists>k. layer = Some k \<and> k \<in> set S)) \<longrightarrow>
         selection_valid (snd (SetLayer p0 S layer m)))"
proof (intro conjI impI)
  show "selection_valid (initial :: ('k, 'v) model)"
    by (simp add: selection_valid_def initial_def)
  show "selection_valid (snd (SetParentModel p0 S m))"
    using SetLayer_result[of p0 S m None] by (auto simp: SetParentModel_def selection_valid_def)
  show "selection_valid (snd (OnUpdate p0 True S m))" by (rule OnUpdate_valid)
  show "selection_valid (snd (OnUpdate p0 False S m))" if "selection_valid m"
    using that by (simp add: OnUpdate_def)
  show "selection_valid (snd (SetLayer p0 S layer m))"
    if "layer = None \<or> (\<exists>k. layer = Some k \<and> k \<in> set S)"
    using that SetLayer_result[of p0 S m layer]
    by (auto simp: selection_valid_def contains_def set_first_occurrences)
qed

theorem selection_invariant_witness:
  "selection_valid (initial :: (layer, nat) model)
   \<and> (Some LayerA = None \<or> (\<exists>k. Some LayerA = Some k \<and> k \<in> set [LayerA, LayerB]))
   \<and> selection_valid (snd (OnUpdate (0::nat) False [LayerA, LayerB] initial))
   \<and> selection_valid (snd (SetLayer (0::nat) [LayerA, LayerB] (Some LayerA) initial))"
proof -
  note t = selection_invariant[of 0 "[LayerA, LayerB]" "initial :: (layer, nat) model" "Some LayerA"]
  have h: "Some LayerA = None \<or> (\<exists>k. Some LayerA = Some k \<and> k \<in> set [LayerA, LayerB])"
    by simp
  note i = t[THEN conjunct1]
  note a = t[THEN conjunct2, THEN conjunct2, THEN conjunct2, THEN conjunct1, THEN mp, OF i]
  note b = t[THEN conjunct2, THEN conjunct2, THEN conjunct2, THEN conjunct2, THEN mp, OF h]
  show ?thesis by (rule conjI[OF i conjI[OF h conjI[OF a b]]])
qed

text \<open>
  The claim as stated covers every operation; \<^verbatim>\<open>SetLayer\<close> with a layer that is not in
  the image data makes that layer the active one although the store has no entry for it.
\<close>

theorem selection_invariant_counterexample:
  "selection_valid (initial :: (layer, nat) model)
   \<and> \<not> selection_valid (snd (SetLayer (0::nat) [] (Some LayerA) initial))"
  by (simp add: selection_valid_def SetLayer_def Update_def resync_def CreateProperty_def
      initial_def contains_def keys_def stale_def invoke_def)

subsection \<open>Reading the properties\<close>

text \<open>
  Claim C5, as amended. With assertions compiled in, \<^verbatim>\<open>GetProperties\<close> with no active
  layer stops the program at \<^verbatim>\<open>assert(m_Layer)\<close>: it returns no value and no error to
  the caller. With an active layer \<open>k\<close> that has an entry in the store it returns, in
  either build, the properties stored for \<open>k\<close>.
\<close>

theorem GetProperties_selection:
  "(m_Layer m = None \<longrightarrow>
       GetProperties True m = Aborts
       \<and> (\<forall>v. GetProperties True m \<noteq> Returns v)
       \<and> (\<forall>e. GetProperties True m \<noteq> Fails e))
   \<and> (m_Layer m = Some k \<and> contains (m_LayerProperties m) k \<longrightarrow>
       (\<exists>v. map_of (iterate (m_LayerProperties m)) k = Some v
            \<and> GetProperties assertions m = Returns v))"
proof (rule conjI; rule impI)
  assume "m_Layer m = None"
  then show "GetProperties True m = Aborts
       \<and> (\<forall>v. GetProperties True m \<noteq> Returns v)
       \<and> (\<forall>e. GetProperties True m \<noteq> Fails e)"
    by (simp add: GetProperties_def)
next
  assume h: "m_Layer m = Some k \<and> contains (m_LayerProperties m) k"
  then have "get (m_LayerProperties m) k \<noteq> Inl NotFound"
    by (simp add: get_NotFound contains_def)
  then obtain v where "map_of (iterate (m_LayerProperties m)) k = Some v"
    "get (m_LayerProperties m) k = Inr v"
    by (auto simp: get_map_of[of "m_LayerProperties m" k] split: option.splits)
  with h show "\<exists>v. map_of (iterate (m_LayerProperties m)) k = Some v
            \<and> GetProperties assertions m = Returns v"
    by (simp add: GetProperties_def)
qed

theorem GetProperties_selection_witness:
  "m_Layer (initial :: (layer, nat) model) = None
   \<and> GetProperties True (initial :: (layer, nat) model) = Aborts
   \<and> m_Layer only_A = Some LayerA \<and> contains (m_LayerProperties only_A) LayerA
   \<and> (\<exists>v. map_of (iterate (m_LayerProperties only_A)) LayerA = Some v
          \<and> GetProperties False only_A = Returns v)
   \<and> GetProperties False only_A = Returns 0"
proof -
  have h0: "m_Layer (initial :: (layer, nat) model) = None" by (simp add: initial_def)
  have h1: "m_Layer only_A = Some LayerA \<and> contains (m_LayerProperties only_A) LayerA"
    by (simp add: only_A_eq contains_def keys_def new_entry_def)
  have e: "GetProperties False only_A = Returns 0"
    by (simp add: only_A_eq GetProperties_def get_def new_entry_def)
  note a = GetProperties_selection[of "initial :: (layer, nat) model", THEN conjunct1, THEN mp, OF h0, THEN conjunct1]
  note b = GetProperties_selection[of only_A LayerA False, THEN conjunct2, THEN mp, OF h1]
  show ?thesis
    by (rule conjI[OF h0 conjI[OF a conjI[OF h1[THEN conjunct1] conjI[OF h1[THEN conjunct2] conjI[OF b e]]]]])
qed

text \<open>
  The claim as stated fails on both counts. With no active layer the call returns no
  \<open>NoActiveSelection\<close> error: it stops at the assertion, or, without assertions, runs
  on unchecked. And a layer can be active without an entry in the store (after
  \<^verbatim>\<open>SetLayer\<close> of a layer that is not in the image data); then no stored value is
  returned.
\<close>

theorem GetProperties_selection_counterexample:
  "m_Layer (initial :: (layer, nat) model) = None
   \<and> GetProperties True (initial :: (layer, nat) model) = Aborts
   \<and> GetProperties True (initial :: (layer, nat) model) \<noteq> Fails NoActiveSelection
   \<and> GetProperties False (initial :: (layer, nat) model) = Unchecked
   \<and> GetProperties False (initial :: (layer, nat) model) \<noteq> Fails NoActiveSelection
   \<and> m_Layer stray_A = Some LayerA
   \<and> GetProperties True stray_A = Unchecked
   \<and> GetProperties False stray_A = Unchecked"
  by (simp add: GetProperties_def initial_def stray_A_def SetLayer_def Update_def resync_def
      CreateProperty_def contains_def keys_def stale_def invoke_def get_def)

subsection \<open>Updates without a layer change\<close>

text \<open>
  Claim C10. \<^verbatim>\<open>OnUpdate\<close> with no \<^verbatim>\<open>LayerChangeEvent\<close> in the event bucket returns
  normally and leaves the model as it is: the active layer, the properties and the
  registrations are the same, and no call is made.
\<close>

theorem OnUpdate_without_LayerChangeEvent:
  "OnUpdate p0 False S m = (Inr (), m)
   \<and> m_Layer (snd (OnUpdate p0 False S m)) = m_Layer m
   \<and> m_LayerProperties (snd (OnUpdate p0 False S m)) = m_LayerProperties m
   \<and> calls_added m (snd (OnUpdate p0 False S m)) = []"
  by (simp add: OnUpdate_def calls_added_def)

end
